theory Spec2Isabelle
  imports Main "HOL-Library.AList"
begin

section \<open>Data model (src/index.tsx, lines 5--35)\<close>

text \<open>
  A JavaScript number. A finite value is kept as a decimal \<open>Num m e\<close>, standing for
  \<open>m * 10 ^ e\<close>: the digits and the exponent that \<open>Number::toString\<close> prints for
  it. The three values of the type \<open>number\<close> that are not finite are constructors of
  their own. The reducer only carries numbers around and never computes with them.
\<close>

datatype jsnum = Num int int | NaN | Infinity | NegInfinity

record Location =
  id' :: string
  lat :: jsnum
  lng :: jsnum
  address :: string
  schedule :: string
  label :: string

record ContactInfo =
  email :: string
  phone :: string
  office :: string

record AppState =
  locations :: "Location list"
  announcements :: string
  contactInfo :: ContactInfo

datatype AppAction =
    SET_STATE AppState
  | ADD_LOCATION Location
  | EDIT_LOCATION Location
  | DELETE_LOCATION string
  | SET_ANNOUNCEMENTS string
  | SET_CONTACT_INFO ContactInfo

definition initialAppState :: AppState where
  "initialAppState =
     \<lparr> locations = [],
       announcements = ''No announcements have been posted yet.'',
       contactInfo =
         \<lparr> email = ''contact@baguio-ewaste.gov.ph'',
           phone = ''(074) 123-4567'',
           office = ''City Environment and Parks Management Office (CEPMO), Baguio City Hall'' \<rparr> \<rparr>"

section \<open>The reducer (src/index.tsx, lines 65--92)\<close>

text \<open>
  The \<open>default\<close> branch of the source's \<open>switch\<close> is not reachable for a value of
  the union type \<open>AppAction\<close>, whose six variants are the six cases.
\<close>

fun appReducer :: "AppState \<Rightarrow> AppAction \<Rightarrow> AppState" where
  "appReducer state (SET_STATE payload) = payload"
| "appReducer state (ADD_LOCATION payload) =
     state\<lparr> locations := locations state @ [payload] \<rparr>"
| "appReducer state (EDIT_LOCATION payload) =
     state\<lparr> locations :=
       map (\<lambda>loc. if id' loc = id' payload then payload else loc) (locations state) \<rparr>"
| "appReducer state (DELETE_LOCATION payload) =
     (let newLocations = filter (\<lambda>loc. id' loc \<noteq> payload) (locations state)
      in state\<lparr> locations := newLocations \<rparr>)"
| "appReducer state (SET_ANNOUNCEMENTS payload) = state\<lparr> announcements := payload \<rparr>"
| "appReducer state (SET_CONTACT_INFO payload) = state\<lparr> contactInfo := payload \<rparr>"

text \<open>Dispatching a sequence of intents, one after the other.\<close>

fun run :: "AppState \<Rightarrow> AppAction list \<Rightarrow> AppState" where
  "run state [] = state"
| "run state (a # as) = run (appReducer state a) as"

text \<open>The ids of a state's locations, in sequence order, and their uniqueness.\<close>

definition ids :: "AppState \<Rightarrow> string list" where
  "ids state = map id' (locations state)"

definition ids_unique :: "AppState \<Rightarrow> bool" where
  "ids_unique state = distinct (ids state)"

text \<open>
  The preconditions of the intents: an added location brings an id that the sequence does
  not hold yet, and a replacing state has unique ids itself. The reducer does not check
  either; the administration page draws the id of a new location from
  \<open>crypto.randomUUID()\<close> (line 423).
\<close>

fun precondition :: "AppState \<Rightarrow> AppAction \<Rightarrow> bool" where
  "precondition state (SET_STATE payload) = ids_unique payload"
| "precondition state (ADD_LOCATION payload) = (id' payload \<notin> set (ids state))"
| "precondition state _ = True"

fun preconditions :: "AppState \<Rightarrow> AppAction list \<Rightarrow> bool" where
  "preconditions state [] = True"
| "preconditions state (a # as) =
     (precondition state a \<and> preconditions (appReducer state a) as)"

text \<open>Two locations for the concrete scenarios.\<close>

definition loc_a :: Location where
  "loc_a = \<lparr> id' = ''a'', lat = Num 164 (-1), lng = Num 1206 (-1),
             address = ''City Hall'', schedule = ''Mon-Fri'', label = ''CH'' \<rparr>"

definition loc_a_edited :: Location where
  "loc_a_edited = \<lparr> id' = ''a'', lat = Num 165 (-1), lng = Num 1207 (-1),
             address = ''City Hall Annex'', schedule = ''Tue,Thu'', label = ''CHA'' \<rparr>"

definition loc_b :: Location where
  "loc_b = \<lparr> id' = ''b'', lat = Num 1641 (-2), lng = Num 1205 (-1),
             address = ''Burnham Park'', schedule = ''Sat'', label = ''BP'' \<rparr>"

section \<open>Run-time values and the platform's JSON functions\<close>

text \<open>
  TypeScript's annotations are erased at run time: the state cell of \<open>useReducer\<close> holds
  a JavaScript value, and \<open>JSON.parse\<close> returns a value of type \<open>any\<close> that the
  load and synchronisation effects dispatch unchecked. The values that JSON text denotes
  are modelled by \<open>jsval\<close>; an object is the list of its own properties in creation
  order, and a property that an object does not have reads as \<open>undefined\<close>, here
  \<open>None\<close>.

  \<open>JSON.stringify\<close> and \<open>JSON.parse\<close> belong to the platform, not to the repository.
  They are modelled after ECMA-262 (\<open>SerializeJSONProperty\<close>, \<open>QuoteJSONString\<close>,
  \<open>Number::toString\<close>, and the JSON grammar of ECMA-404), under these limits: a string is
  a list of 8-bit characters, so a four-digit escape of a code unit above \<open>00FF\<close> is outside
  the alphabet and rejected; a finite number is the exact decimal its literal denotes and is
  not rounded to a double; integer-like property names are not moved to the front of an
  object.
\<close>

datatype jsval =
    JNull
  | JBool bool
  | JNumber jsnum
  | JString string
  | JArray "jsval list"
  | JObject "(string \<times> jsval) list"

text \<open>The double quote and the backslash.\<close>

definition dquote :: char where "dquote = CHR 0x22"
definition bslash :: char where "bslash = CHR 0x5C"

subsection \<open>Decimal digits\<close>

definition is_digit :: "char \<Rightarrow> bool" where
  "is_digit c = (48 \<le> (of_char c :: nat) \<and> (of_char c :: nat) \<le> 57)"

definition digit_val :: "char \<Rightarrow> nat" where
  "digit_val c = of_char c - 48"

definition digit_char :: "nat \<Rightarrow> char" where
  "digit_char d = char_of (48 + d)"

function digits_of_nat :: "nat \<Rightarrow> string" where
  "digits_of_nat n =
     (if n < 10 then [digit_char n] else digits_of_nat (n div 10) @ [digit_char (n mod 10)])"
  by pat_completeness auto
termination
  by (relation "measure (\<lambda>n. n)") auto

declare digits_of_nat.simps [simp del]

definition nat_of_digits :: "string \<Rightarrow> nat" where
  "nat_of_digits ds = foldl (\<lambda>n c. 10 * n + digit_val c) 0 ds"

subsection \<open>\<open>JSON.stringify\<close>\<close>

definition hex_char :: "nat \<Rightarrow> char" where
  "hex_char d = (if d < 10 then char_of (48 + d) else char_of (87 + d))"

definition escape_char :: "char \<Rightarrow> string" where
  "escape_char c =
     (if c = dquote then [bslash, dquote]
      else if c = bslash then [bslash, bslash]
      else if c = CHR 0x08 then [bslash, CHR ''b'']
      else if c = CHR 0x0C then [bslash, CHR ''f'']
      else if c = CHR 0x0A then [bslash, CHR ''n'']
      else if c = CHR 0x0D then [bslash, CHR ''r'']
      else if c = CHR 0x09 then [bslash, CHR ''t'']
      else if (of_char c :: nat) < 32
        then [bslash, CHR ''u'', CHR ''0'', CHR ''0'',
              hex_char ((of_char c :: nat) div 16), hex_char ((of_char c :: nat) mod 16)]
      else [c])"

definition quote :: "string \<Rightarrow> string" where
  "quote s = dquote # concat (map escape_char s) @ [dquote]"

text \<open>
  \<open>Number::toString\<close>: with \<open>k\<close> significant digits and the decimal point
  after the \<open>n\<close>-th digit, the text is positional for \<open>-6 < n \<le> 21\<close> and in exponent
  notation otherwise. A number that is not finite is written \<open>null\<close>.
\<close>

definition trailing_zeros :: "string \<Rightarrow> nat" where
  "trailing_zeros ds = length (takeWhile (\<lambda>c. c = CHR ''0'') (rev ds))"

definition significant :: "string \<Rightarrow> string" where
  "significant ds = take (length ds - trailing_zeros ds) ds"

definition show_digits :: "string \<Rightarrow> int \<Rightarrow> string" where
  "show_digits ds n =
     (let k = int (length ds)
      in if k \<le> n \<and> n \<le> 21 then ds @ replicate (nat (n - k)) (CHR ''0'')
         else if 0 < n \<and> n \<le> 21 then take (nat n) ds @ ''.'' @ drop (nat n) ds
         else if - 6 < n \<and> n \<le> 0 then ''0.'' @ replicate (nat (- n)) (CHR ''0'') @ ds
         else (if k = 1 then ds else hd ds # ''.'' @ tl ds)
              @ ''e'' @ (if n - 1 < 0 then ''-'' else ''+'') @ digits_of_nat (nat \<bar>n - 1\<bar>))"

fun show_num :: "jsnum \<Rightarrow> string" where
  "show_num (Num m e) =
     (if m = 0 then ''0''
      else let ds = digits_of_nat (nat \<bar>m\<bar>); s = significant ds
           in (if m < 0 then ''-'' else '''') @ show_digits s (int (length ds) + e))"
| "show_num _ = ''null''"

fun JSON_stringify :: "jsval \<Rightarrow> string"
  and stringify_elements :: "jsval list \<Rightarrow> string"
  and stringify_members :: "(string \<times> jsval) list \<Rightarrow> string" where
  "JSON_stringify JNull = ''null''"
| "JSON_stringify (JBool b) = (if b then ''true'' else ''false'')"
| "JSON_stringify (JNumber x) = show_num x"
| "JSON_stringify (JString s) = quote s"
| "JSON_stringify (JArray vs) = ''['' @ stringify_elements vs @ '']''"
| "JSON_stringify (JObject kvs) = ''{'' @ stringify_members kvs @ ''}''"
| "stringify_elements [] = []"
| "stringify_elements [v] = JSON_stringify v"
| "stringify_elements (v # w # vs) = JSON_stringify v @ '','' @ stringify_elements (w # vs)"
| "stringify_members [] = []"
| "stringify_members [(k, v)] = quote k @ '':'' @ JSON_stringify v"
| "stringify_members ((k, v) # kv # kvs) =
     quote k @ '':'' @ JSON_stringify v @ '','' @ stringify_members (kv # kvs)"

subsection \<open>\<open>JSON.parse\<close>\<close>

definition hex_val :: "char \<Rightarrow> nat option" where
  "hex_val c =
     (let n = (of_char c :: nat)
      in if 48 \<le> n \<and> n \<le> 57 then Some (n - 48)
         else if 97 \<le> n \<and> n \<le> 102 then Some (n - 87)
         else if 65 \<le> n \<and> n \<le> 70 then Some (n - 55)
         else None)"

definition unescape :: "char \<Rightarrow> char option" where
  "unescape e =
     (if e = dquote then Some dquote
      else if e = bslash then Some bslash
      else if e = CHR ''/'' then Some (CHR ''/'')
      else if e = CHR ''b'' then Some (CHR 0x08)
      else if e = CHR ''f'' then Some (CHR 0x0C)
      else if e = CHR ''n'' then Some (CHR 0x0A)
      else if e = CHR ''r'' then Some (CHR 0x0D)
      else if e = CHR ''t'' then Some (CHR 0x09)
      else None)"

definition hex4 :: "char \<Rightarrow> char \<Rightarrow> char \<Rightarrow> char \<Rightarrow> nat option" where
  "hex4 a b c d =
     (case (hex_val a, hex_val b, hex_val c, hex_val d) of
        (Some w, Some x, Some y, Some z) \<Rightarrow> Some (((w * 16 + x) * 16 + y) * 16 + z)
      | _ \<Rightarrow> None)"

definition cons_char :: "char \<Rightarrow> (string \<times> string) option \<Rightarrow> (string \<times> string) option" where
  "cons_char c r = (case r of None \<Rightarrow> None | Some (s, rest) \<Rightarrow> Some (c # s, rest))"

fun parse_chars :: "string \<Rightarrow> (string \<times> string) option" where
  "parse_chars [] = None"
| "parse_chars (c # cs) =
     (if c = dquote then Some ([], cs)
      else if c = bslash then
        (case cs of
           [] \<Rightarrow> None
         | e # cs' \<Rightarrow>
             if e = CHR ''u'' then
               (case cs' of
                  h1 # h2 # h3 # h4 # cs'' \<Rightarrow>
                    (case hex4 h1 h2 h3 h4 of
                       None \<Rightarrow> None
                     | Some n \<Rightarrow> if n < 256 then cons_char (char_of n) (parse_chars cs'') else None)
                | _ \<Rightarrow> None)
             else
               (case unescape e of
                  None \<Rightarrow> None
                | Some ch \<Rightarrow> cons_char ch (parse_chars cs')))
      else if (of_char c :: nat) < 32 then None
      else cons_char c (parse_chars cs))"

definition make_num :: "bool \<Rightarrow> string \<Rightarrow> int \<Rightarrow> jsnum" where
  "make_num neg ds e =
     (let s = significant ds
      in if nat_of_digits s = 0 then Num 0 0
         else Num ((if neg then - 1 else 1) * int (nat_of_digits s))
                  (e + int (trailing_zeros ds)))"

definition parse_exponent :: "string \<Rightarrow> (int \<times> string) option" where
  "parse_exponent cs =
     (case cs of
        [] \<Rightarrow> Some (0, cs)
      | c # r \<Rightarrow>
          if c = CHR ''e'' \<or> c = CHR ''E'' then
            (let neg = (case r of [] \<Rightarrow> False | s # _ \<Rightarrow> s = CHR ''-'');
                 r' = (case r of [] \<Rightarrow> r | s # t \<Rightarrow> if s = CHR ''-'' \<or> s = CHR ''+'' then t else r);
                 ds = takeWhile is_digit r'
             in if ds = [] then None
                else Some ((if neg then - 1 else 1) * int (nat_of_digits ds), dropWhile is_digit r'))
          else Some (0, cs))"

definition parse_fraction :: "string \<Rightarrow> (string \<times> string) option" where
  "parse_fraction cs =
     (case cs of
        [] \<Rightarrow> Some ([], cs)
      | c # r \<Rightarrow>
          if c = CHR ''.'' then
            (if takeWhile is_digit r = [] then None
             else Some (takeWhile is_digit r, dropWhile is_digit r))
          else Some ([], cs))"

definition parse_number :: "string \<Rightarrow> (jsnum \<times> string) option" where
  "parse_number cs =
     (let neg = (case cs of [] \<Rightarrow> False | s # _ \<Rightarrow> s = CHR ''-'');
          cs1 = (if neg then tl cs else cs);
          ip = takeWhile is_digit cs1
      in if ip = [] \<or> (1 < length ip \<and> hd ip = CHR ''0'') then None
         else case parse_fraction (dropWhile is_digit cs1) of
                None \<Rightarrow> None
              | Some (fp, cs2) \<Rightarrow>
                  (case parse_exponent cs2 of
                     None \<Rightarrow> None
                   | Some (ex, cs3) \<Rightarrow>
                       Some (make_num neg (ip @ fp) (ex - int (length fp)), cs3)))"

definition is_ws :: "char \<Rightarrow> bool" where
  "is_ws c = (c = CHR '' '' \<or> c = CHR 0x09 \<or> c = CHR 0x0A \<or> c = CHR 0x0D)"

definition skip_ws :: "string \<Rightarrow> string" where
  "skip_ws cs = dropWhile is_ws cs"

definition literal :: "string \<Rightarrow> jsval \<Rightarrow> string \<Rightarrow> (jsval \<times> string) option" where
  "literal w v cs = (if take (length w) cs = w then Some (v, drop (length w) cs) else None)"

text \<open>
  A repeated property name overwrites the earlier value and keeps the earlier position.
\<close>

definition put :: "(string \<times> jsval) list \<Rightarrow> string \<times> jsval \<Rightarrow> (string \<times> jsval) list" where
  "put obj kv = AList.update (fst kv) (snd kv) obj"

text \<open>
  The parser descends on a fuel that \<open>JSON_parse\<close> sets to the length of the text;
  each nested value and each further element consumes at least one character.
  \<open>None\<close> is the \<open>SyntaxError\<close> that \<open>JSON.parse\<close> throws.
\<close>

function (sequential) parse_value :: "nat \<Rightarrow> string \<Rightarrow> (jsval \<times> string) option"
  and parse_elements :: "nat \<Rightarrow> string \<Rightarrow> (jsval list \<times> string) option"
  and parse_members :: "nat \<Rightarrow> string \<Rightarrow> ((string \<times> jsval) list \<times> string) option" where
  "parse_value 0 cs = None"
| "parse_value (Suc n) [] = None"
| "parse_value (Suc n) (c # cs) =
     (if c = CHR ''['' then
        (case skip_ws cs of
           [] \<Rightarrow> None
         | d # r \<Rightarrow>
             if d = CHR '']'' then Some (JArray [], r)
             else (case parse_elements n (d # r) of
                     None \<Rightarrow> None
                   | Some (vs, r') \<Rightarrow> Some (JArray vs, r')))
      else if c = CHR ''{'' then
        (case skip_ws cs of
           [] \<Rightarrow> None
         | d # r \<Rightarrow>
             if d = CHR ''}'' then Some (JObject [], r)
             else (case parse_members n (d # r) of
                     None \<Rightarrow> None
                   | Some (kvs, r') \<Rightarrow> Some (JObject (foldl put [] kvs), r')))
      else if c = dquote then
        (case parse_chars cs of None \<Rightarrow> None | Some (s, r) \<Rightarrow> Some (JString s, r))
      else if c = CHR ''t'' then literal ''true'' (JBool True) (c # cs)
      else if c = CHR ''f'' then literal ''false'' (JBool False) (c # cs)
      else if c = CHR ''n'' then literal ''null'' JNull (c # cs)
      else (case parse_number (c # cs) of
              None \<Rightarrow> None
            | Some (x, r) \<Rightarrow> Some (JNumber x, r)))"
| "parse_elements 0 cs = None"
| "parse_elements (Suc n) cs =
     (case parse_value n cs of
        None \<Rightarrow> None
      | Some (v, r) \<Rightarrow>
          (case skip_ws r of
             [] \<Rightarrow> None
           | d # r' \<Rightarrow>
               if d = CHR '','' then
                 (case parse_elements n (skip_ws r') of
                    None \<Rightarrow> None
                  | Some (vs, r'') \<Rightarrow> Some (v # vs, r''))
               else if d = CHR '']'' then Some ([v], r')
               else None))"
| "parse_members 0 cs = None"
| "parse_members (Suc n) cs =
     (case cs of
        [] \<Rightarrow> None
      | q # cs' \<Rightarrow>
          if q \<noteq> dquote then None
          else (case parse_chars cs' of
                  None \<Rightarrow> None
                | Some (k, r) \<Rightarrow>
                    (case skip_ws r of
                       [] \<Rightarrow> None
                     | colon # r1 \<Rightarrow>
                         if colon \<noteq> CHR '':'' then None
                         else (case parse_value n (skip_ws r1) of
                                 None \<Rightarrow> None
                               | Some (v, r2) \<Rightarrow>
                                   (case skip_ws r2 of
                                      [] \<Rightarrow> None
                                    | d # r3 \<Rightarrow>
                                        if d = CHR '','' then
                                          (case parse_members n (skip_ws r3) of
                                             None \<Rightarrow> None
                                           | Some (kvs, r4) \<Rightarrow> Some ((k, v) # kvs, r4))
                                        else if d = CHR ''}'' then Some ([(k, v)], r3)
                                        else None)))))"
  by pat_completeness auto
termination
  by (relation "measure (\<lambda>x. case x of Inl (n, _) \<Rightarrow> n | Inr (Inl (n, _)) \<Rightarrow> n
                                    | Inr (Inr (n, _)) \<Rightarrow> n)") simp_all

definition JSON_parse :: "string \<Rightarrow> jsval option" where
  "JSON_parse text =
     (case parse_value (Suc (length text)) (skip_ws text) of
        None \<Rightarrow> None
      | Some (v, rest) \<Rightarrow> if skip_ws rest = [] then Some v else None)"

subsection \<open>The run-time value of a typed state\<close>

definition js_of_Location :: "Location \<Rightarrow> jsval" where
  "js_of_Location l =
     JObject [(''id'', JString (id' l)), (''lat'', JNumber (lat l)), (''lng'', JNumber (lng l)),
              (''address'', JString (address l)), (''schedule'', JString (schedule l)),
              (''label'', JString (label l))]"

definition js_of_ContactInfo :: "ContactInfo \<Rightarrow> jsval" where
  "js_of_ContactInfo c =
     JObject [(''email'', JString (email c)), (''phone'', JString (phone c)),
              (''office'', JString (office c))]"

definition js_of_AppState :: "AppState \<Rightarrow> jsval" where
  "js_of_AppState s =
     JObject [(''locations'', JArray (map js_of_Location (locations s))),
              (''announcements'', JString (announcements s)),
              (''contactInfo'', js_of_ContactInfo (contactInfo s))]"

text \<open>The errors that the platform raises in the code modelled here.\<close>

datatype error = SecurityError | QuotaExceededError | SyntaxError | TypeError

text \<open>
  The property names that the pages read from the state and from its contact information
  (lines 210--212, 269, 721--732).
\<close>

datatype prop_name = P_locations | P_announcements | P_contactInfo | P_email | P_phone | P_office

fun name_of :: "prop_name \<Rightarrow> string" where
  "name_of P_locations = ''locations''"
| "name_of P_announcements = ''announcements''"
| "name_of P_contactInfo = ''contactInfo''"
| "name_of P_email = ''email''"
| "name_of P_phone = ''phone''"
| "name_of P_office = ''office''"

text \<open>
  Reading a property, \<open>v.p\<close>, where \<open>None\<close> is \<open>undefined\<close>. Reading from
  \<open>undefined\<close> or \<open>null\<close> raises \<open>TypeError\<close>. An object gives its own property
  of that name, or \<open>undefined\<close>; a number, a boolean, a string and an array have no
  property of any of these names, own or inherited.
\<close>

fun get_prop :: "jsval option \<Rightarrow> prop_name \<Rightarrow> error + jsval option" where
  "get_prop None p = Inl TypeError"
| "get_prop (Some JNull) p = Inl TypeError"
| "get_prop (Some (JObject kvs)) p = Inr (map_of kvs (name_of p))"
| "get_prop (Some v) p = Inr None"

text \<open>
  The reads of the contact page: \<open>state.contactInfo\<close> in \<open>renderPage\<close> (line 723),
  then \<open>contactInfo.email\<close>, \<open>contactInfo.phone\<close> and \<open>contactInfo.office\<close> in
  \<open>ContactPage\<close> (lines 210--212). The application has no error boundary: an error
  raised while a page renders is not caught, and React unmounts the application.
\<close>

definition ContactPage_reads ::
  "jsval \<Rightarrow> error + jsval option \<times> jsval option \<times> jsval option" where
  "ContactPage_reads state =
     (case get_prop (Some state) P_contactInfo of
        Inl e \<Rightarrow> Inl e
      | Inr info \<Rightarrow>
          (case get_prop info P_email of
             Inl e \<Rightarrow> Inl e
           | Inr em \<Rightarrow>
               (case get_prop info P_phone of
                  Inl e \<Rightarrow> Inl e
                | Inr ph \<Rightarrow>
                    (case get_prop info P_office of
                       Inl e \<Rightarrow> Inl e
                     | Inr off \<Rightarrow> Inr (em, ph, off)))))"

text \<open>
  A fully populated \<open>AppState\<close> at run time: an object whose \<open>locations\<close> is an array
  of objects with the six fields of a \<open>Location\<close>, whose \<open>announcements\<close> is a string
  and whose \<open>contactInfo\<close> is an object with three strings. Every read that a page makes
  of such a value finds a value of the declared type. Further properties and the order
  of the properties do not matter.
\<close>

fun is_JString :: "jsval \<Rightarrow> bool" where
  "is_JString (JString s) = True"
| "is_JString _ = False"

fun is_finite_JNumber :: "jsval \<Rightarrow> bool" where
  "is_finite_JNumber (JNumber (Num m e)) = True"
| "is_finite_JNumber _ = False"

fun has_prop :: "(jsval \<Rightarrow> bool) \<Rightarrow> jsval \<Rightarrow> string \<Rightarrow> bool" where
  "has_prop P (JObject kvs) k = (case map_of kvs k of None \<Rightarrow> False | Some x \<Rightarrow> P x)"
| "has_prop P _ k = False"

definition shaped_Location :: "jsval \<Rightarrow> bool" where
  "shaped_Location v =
     (has_prop is_JString v ''id'' \<and> has_prop is_finite_JNumber v ''lat''
      \<and> has_prop is_finite_JNumber v ''lng'' \<and> has_prop is_JString v ''address''
      \<and> has_prop is_JString v ''schedule'' \<and> has_prop is_JString v ''label'')"

definition shaped_ContactInfo :: "jsval \<Rightarrow> bool" where
  "shaped_ContactInfo v =
     (has_prop is_JString v ''email'' \<and> has_prop is_JString v ''phone''
      \<and> has_prop is_JString v ''office'')"

fun shaped_Locations :: "jsval \<Rightarrow> bool" where
  "shaped_Locations (JArray vs) = list_all shaped_Location vs"
| "shaped_Locations _ = False"

definition shaped_AppState :: "jsval \<Rightarrow> bool" where
  "shaped_AppState v =
     (has_prop shaped_Locations v ''locations'' \<and> has_prop is_JString v ''announcements''
      \<and> has_prop shaped_ContactInfo v ''contactInfo'')"

text \<open>
  The \<open>SET_STATE\<close> case of \<open>appReducer\<close> on run-time values: the payload replaces the
  state, whatever its shape.
\<close>

definition SET_STATE_any :: "jsval \<Rightarrow> jsval \<Rightarrow> jsval" where
  "SET_STATE_any state payload = payload"

section \<open>Local storage\<close>

text \<open>
  \<open>window.localStorage\<close> of the page's origin: the stored items, whether the page may
  access the storage at all (access raises \<open>SecurityError\<close> otherwise), and the quota,
  counted in characters of names and values (\<open>setItem\<close> raises
  \<open>QuotaExceededError\<close> when the items would exceed it).
\<close>

record Storage =
  items :: "(string \<times> string) list"
  available :: bool
  capacity :: nat

definition usage :: "(string \<times> string) list \<Rightarrow> nat" where
  "usage kvs = sum_list (map (\<lambda>kv. length (fst kv) + length (snd kv)) kvs)"

definition getItem :: "Storage \<Rightarrow> string \<Rightarrow> error + string option" where
  "getItem st k = (if available st then Inr (map_of (items st) k) else Inl SecurityError)"

definition setItem :: "Storage \<Rightarrow> string \<Rightarrow> string \<Rightarrow> error + Storage" where
  "setItem st k v =
     (if \<not> available st then Inl SecurityError
      else if capacity st < usage (AList.update k v (items st)) then Inl QuotaExceededError
      else Inr (st\<lparr> items := AList.update k v (items st) \<rparr>))"

text \<open>The event that the browser delivers for a change made in another tab.\<close>

record StorageEvent =
  key :: "string option"
  newValue :: "string option"

section \<open>The effects of \<open>App\<close> (src/index.tsx, lines 632--679)\<close>

definition STORAGE_KEY :: string where
  "STORAGE_KEY = ''e-waste-data''"

text \<open>
  The load effect (lines 640--650). The body of its \<open>try\<close> gives the payload of the
  \<open>SET_STATE\<close> action it dispatches, if it dispatches, or the error raised inside; the
  \<open>catch\<close> logs the error and dispatches nothing. A stored item that is \<open>null\<close> or
  the empty string is falsy.
\<close>

definition load_try :: "Storage \<Rightarrow> error + jsval option" where
  "load_try st =
     (case getItem st STORAGE_KEY of
        Inl e \<Rightarrow> Inl e
      | Inr None \<Rightarrow> Inr None
      | Inr (Some storedItem) \<Rightarrow>
          if storedItem = [] then Inr None
          else (case JSON_parse storedItem of
                  None \<Rightarrow> Inl SyntaxError
                | Some savedState \<Rightarrow> Inr (Some savedState)))"

definition load_effect :: "Storage \<Rightarrow> jsval option" where
  "load_effect st = (case load_try st of Inl e \<Rightarrow> None | Inr dispatched \<Rightarrow> dispatched)"

text \<open>
  The save effect (lines 652--659): it runs after the first render and after every render
  in which \<open>state\<close> has changed; an error of \<open>setItem\<close> is caught and logged.
\<close>

definition save_effect :: "jsval \<Rightarrow> Storage \<Rightarrow> Storage" where
  "save_effect state st =
     (case setItem st STORAGE_KEY (JSON_stringify state) of
        Inl e \<Rightarrow> st
      | Inr st' \<Rightarrow> st')"

text \<open>
  Mounting \<open>App\<close>. The state cell starts at \<open>initialAppState\<close>, and the first render
  shows it. The effects run in the order of their declaration, so the load effect reads
  the storage before the save effect writes the initial state to it. A dispatched
  \<open>SET_STATE\<close> makes the reducer return the payload and React render again.

  \<open>Running state st\<close>: the application shows \<open>state\<close>, and \<open>st\<close> is the storage
  after the save effects. When the payload is a fully populated \<open>AppState\<close> the second
  render completes on every page, and the save effect runs again for the new state.

  \<open>Unshaped payload st\<close>: the reducer has returned a payload that is not a fully
  populated \<open>AppState\<close>; \<open>st\<close> is the storage at that moment, written by the first
  save effect. The render of such a payload reads fields that it may lack: on the
  contact page \<open>ContactPage_reads\<close> raises \<open>TypeError\<close> when the contact information is
  absent, and with the payload \<open>null\<close> the reads of \<open>renderPage\<close> (lines 721--732)
  do. The error is not caught, React unmounts the application, and the save effect does
  not run again. Which reads are made depends on the page shown; the model does not
  follow the render of an unshaped payload further.
\<close>

datatype mounted =
    Running (state_of: jsval) (storage_of: Storage)
  | Unshaped (state_of: jsval) (storage_of: Storage)

definition startup :: "Storage \<Rightarrow> mounted" where
  "startup st =
     (let state0 = js_of_AppState initialAppState;
          dispatched = load_effect st;
          st1 = save_effect state0 st
      in case dispatched of
           None \<Rightarrow> Running state0 st1
         | Some payload \<Rightarrow>
             (let state1 = SET_STATE_any state0 payload
              in if shaped_AppState state1 then Running state1 (save_effect state1 st1)
                 else Unshaped state1 st1))"

text \<open>
  The listener for changes from other tabs (lines 662--672): the payload of the
  \<open>SET_STATE\<close> action it dispatches, if it dispatches. An error of \<open>JSON.parse\<close> is
  caught and logged.
\<close>

definition handleStorageChange :: "StorageEvent \<Rightarrow> jsval option" where
  "handleStorageChange event =
     (if key event = Some STORAGE_KEY \<and> newValue event \<noteq> None \<and> newValue event \<noteq> Some []
      then (case JSON_parse (the (newValue event)) of
              None \<Rightarrow> None
            | Some savedState \<Rightarrow> Some savedState)
      else None)"

definition after_storage_event :: "StorageEvent \<Rightarrow> jsval \<Rightarrow> jsval" where
  "after_storage_event event state =
     (case handleStorageChange event of
        None \<Rightarrow> state
      | Some payload \<Rightarrow> SET_STATE_any state payload)"


section \<open>Well-formed values\<close>

text \<open>
  A number is well formed when it is finite and in normal form: zero is \<open>Num 0 0\<close>, and
  the mantissa of any other number does not end in the digit zero. A JSON value is well
  formed when its numbers are and no object repeats a property name.
\<close>

fun wf_num :: "jsnum \<Rightarrow> bool" where
  "wf_num (Num m e) = (if m = 0 then e = 0 else \<not> 10 dvd m)"
| "wf_num _ = False"

fun wf_js :: "jsval \<Rightarrow> bool" where
  "wf_js (JNumber x) = wf_num x"
| "wf_js (JArray vs) = list_all wf_js vs"
| "wf_js (JObject kvs) = (distinct (map fst kvs) \<and> list_all (\<lambda>kv. wf_js (snd kv)) kvs)"
| "wf_js _ = True"

definition wf_Location :: "Location \<Rightarrow> bool" where
  "wf_Location l = (wf_num (lat l) \<and> wf_num (lng l))"

definition wf_AppState :: "AppState \<Rightarrow> bool" where
  "wf_AppState s = list_all wf_Location (locations s)"

text \<open>
  The text that follows a value inside an array or an object, or ends the whole text:
  it is empty or starts with a comma or a closing bracket.
\<close>

definition delimited :: "string \<Rightarrow> bool" where
  "delimited rest = (rest = [] \<or> hd rest = CHR '','' \<or> hd rest = CHR '']'' \<or> hd rest = CHR ''}'')"

text \<open>The first character of the text of a value.\<close>

definition starts_value :: "string \<Rightarrow> bool" where
  "starts_value cs = (cs \<noteq> [] \<and> \<not> is_ws (hd cs) \<and> hd cs \<noteq> CHR '']'' \<and> hd cs \<noteq> CHR ''}'')"

text \<open>The fuel that parsing the text of a value takes.\<close>

fun cost :: "jsval \<Rightarrow> nat"
  and cost_elements :: "jsval list \<Rightarrow> nat"
  and cost_members :: "(string \<times> jsval) list \<Rightarrow> nat" where
  "cost (JArray vs) = Suc (cost_elements vs)"
| "cost (JObject kvs) = Suc (cost_members kvs)"
| "cost _ = 1"
| "cost_elements [] = 0"
| "cost_elements (v # vs) = Suc (cost v + cost_elements vs)"
| "cost_members [] = 0"
| "cost_members ((k, v) # kvs) = Suc (cost v + cost_members kvs)"

section \<open>Concrete inputs\<close>

text \<open>A storage with room, empty or holding one blob under the application's key.\<close>

definition storage_with :: "string option \<Rightarrow> Storage" where
  "storage_with blob =
     \<lparr> items = (case blob of None \<Rightarrow> [] | Some b \<Rightarrow> [(STORAGE_KEY, b)]),
       available = True, capacity = 5000000 \<rparr>"


definition blob_corrupt :: string where
  \<open>blob_corrupt = ''{"locations":[{"id":"a",''\<close>

definition blob_partial :: string where
  \<open>blob_partial = ''{"locations":[]}''\<close>

definition blob_null :: string where
  "blob_null = ''null''"

definition blob_drive :: string where
  \<open>blob_drive = ''{"locations":[{"id":"a","lat":16.4,"lng":120.6,"address":"City Hall","schedule":"Mon-Fri","label":"CH"}],"announcements":"Collection drive this weekend","contactInfo":{"email":"contact@baguio-ewaste.gov.ph","phone":"(074) 123-4567","office":"CEPMO"}}''\<close>

definition state_drive :: AppState where
  "state_drive =
     \<lparr> locations = [loc_a],
       announcements = ''Collection drive this weekend'',
       contactInfo = \<lparr> email = ''contact@baguio-ewaste.gov.ph'', phone = ''(074) 123-4567'',
                       office = ''CEPMO'' \<rparr> \<rparr>"

definition state_twice :: AppState where
  "state_twice = initialAppState\<lparr> locations := [loc_a, loc_a] \<rparr>"

definition event_for :: "string option \<Rightarrow> StorageEvent" where
  "event_for v = \<lparr> key = Some STORAGE_KEY, newValue = v \<rparr>"

section \<open>Properties of the reducer\<close>

lemma ids_edit:
  "map (id' \<circ> (\<lambda>loc. if id' loc = id' p then p else loc)) xs = map id' xs"
  by (induction xs) auto

lemma edit_absent:
  "id' p \<notin> id' ` set xs \<Longrightarrow> map (\<lambda>loc. if id' loc = id' p then p else loc) xs = xs"
  by (induction xs) auto

lemma precondition_preserves:
  "ids_unique state \<Longrightarrow> precondition state a \<Longrightarrow> ids_unique (appReducer state a)"
  by (cases a) (auto simp: ids_unique_def ids_def ids_edit distinct_map_filter)

text \<open>
  C6. For every state and every location whose id is not in the state's sequence,
  ADD_LOCATION gives the old sequence with the location appended at its end, and leaves
  the announcements and the contact information as they were.
\<close>

theorem C6_add_location_appends:
  assumes "id' loc \<notin> set (ids s)"
  shows "locations (appReducer s (ADD_LOCATION loc)) = locations s @ [loc]
       \<and> announcements (appReducer s (ADD_LOCATION loc)) = announcements s
       \<and> contactInfo (appReducer s (ADD_LOCATION loc)) = contactInfo s"
  by simp

theorem C6_witness:
  "id' loc_a \<notin> set (ids initialAppState)
   \<and> locations (appReducer initialAppState (ADD_LOCATION loc_a)) = [loc_a]
   \<and> announcements (appReducer initialAppState (ADD_LOCATION loc_a)) =
       ''No announcements have been posted yet.''"
proof -
  have h: "id' loc_a \<notin> set (ids initialAppState)"
    by (simp add: ids_def initialAppState_def)
  from C6_add_location_appends [OF h] h show ?thesis
    by (simp add: initialAppState_def)
qed

text \<open>
  C7. For every state and every EDIT_LOCATION intent: the sequence keeps its length; at
  each position, an entry whose id is the payload's id becomes the payload, and every
  other entry stays what it was; the announcements and the contact information are
  unchanged; and when no entry has the payload's id, the result is the state itself.
\<close>

theorem C7_edit_location:
  "length (locations (appReducer s (EDIT_LOCATION loc))) = length (locations s)
   \<and> (\<forall>i < length (locations s).
        locations (appReducer s (EDIT_LOCATION loc)) ! i =
          (if id' (locations s ! i) = id' loc then loc else locations s ! i))
   \<and> announcements (appReducer s (EDIT_LOCATION loc)) = announcements s
   \<and> contactInfo (appReducer s (EDIT_LOCATION loc)) = contactInfo s
   \<and> (id' loc \<notin> set (ids s) \<longrightarrow> appReducer s (EDIT_LOCATION loc) = s)"
  by (simp add: ids_def edit_absent)

theorem C7_witness:
  "locations (appReducer (run initialAppState [ADD_LOCATION loc_b, ADD_LOCATION loc_a])
      (EDIT_LOCATION loc_a_edited)) = [loc_b, loc_a_edited]
   \<and> id' loc_a_edited \<notin> set (ids (run initialAppState [ADD_LOCATION loc_b]))
   \<and> appReducer (run initialAppState [ADD_LOCATION loc_b]) (EDIT_LOCATION loc_a_edited)
       = run initialAppState [ADD_LOCATION loc_b]"
proof -
  let ?s2 = "run initialAppState [ADD_LOCATION loc_b, ADD_LOCATION loc_a]"
  let ?s1 = "run initialAppState [ADD_LOCATION loc_b]"
  have l2: "locations ?s2 = [loc_b, loc_a]"
    by (simp add: initialAppState_def)
  have absent: "id' loc_a_edited \<notin> set (ids ?s1)"
    by (simp add: ids_def initialAppState_def loc_a_edited_def loc_b_def)
  have "locations (appReducer ?s2 (EDIT_LOCATION loc_a_edited)) = [loc_b, loc_a_edited]"
  proof (rule nth_equalityI)
    show "length (locations (appReducer ?s2 (EDIT_LOCATION loc_a_edited)))
        = length [loc_b, loc_a_edited]"
      using C7_edit_location [of ?s2 loc_a_edited] l2 by simp
  next
    fix i
    assume "i < length (locations (appReducer ?s2 (EDIT_LOCATION loc_a_edited)))"
    then have "i = 0 \<or> i = 1"
      using C7_edit_location [of ?s2 loc_a_edited] l2 by auto
    then show "locations (appReducer ?s2 (EDIT_LOCATION loc_a_edited)) ! i
        = [loc_b, loc_a_edited] ! i"
      using C7_edit_location [of ?s2 loc_a_edited] l2
      by (auto simp: loc_a_edited_def loc_a_def loc_b_def)
  qed
  moreover have "appReducer ?s1 (EDIT_LOCATION loc_a_edited) = ?s1"
    using C7_edit_location [of ?s1 loc_a_edited] absent by blast
  ultimately show ?thesis using absent by blast
qed

text \<open>
  C8. For every state and every DELETE_LOCATION intent, the resulting sequence is the
  old one restricted to the entries whose id differs from the given id, in their old
  order, whatever the number of entries that carry the id; the other two fields are
  unchanged; and when no entry carries the id, the result is the state itself.
\<close>

theorem C8_delete_location:
  "locations (appReducer s (DELETE_LOCATION i)) = filter (\<lambda>loc. id' loc \<noteq> i) (locations s)
   \<and> announcements (appReducer s (DELETE_LOCATION i)) = announcements s
   \<and> contactInfo (appReducer s (DELETE_LOCATION i)) = contactInfo s
   \<and> (i \<notin> set (ids s) \<longrightarrow> appReducer s (DELETE_LOCATION i) = s)"
proof -
  have "i \<notin> set (ids s) \<Longrightarrow> filter (\<lambda>loc. id' loc \<noteq> i) (locations s) = locations s"
    by (auto simp: ids_def filter_id_conv)
  then show ?thesis by (auto simp: Let_def)
qed

theorem C8_witness:
  "locations (appReducer (run initialAppState [ADD_LOCATION loc_a, ADD_LOCATION loc_b])
      (DELETE_LOCATION ''a'')) = [loc_b]
   \<and> ''c'' \<notin> set (ids (run initialAppState [ADD_LOCATION loc_a, ADD_LOCATION loc_b]))
   \<and> appReducer (run initialAppState [ADD_LOCATION loc_a, ADD_LOCATION loc_b])
       (DELETE_LOCATION ''c'') = run initialAppState [ADD_LOCATION loc_a, ADD_LOCATION loc_b]"
proof -
  let ?s = "run initialAppState [ADD_LOCATION loc_a, ADD_LOCATION loc_b]"
  have absent: "''c'' \<notin> set (ids ?s)"
    by (simp add: ids_def initialAppState_def loc_a_def loc_b_def)
  have "locations (appReducer ?s (DELETE_LOCATION ''a'')) = [loc_b]"
    using C8_delete_location [of ?s "''a''"]
    by (simp add: initialAppState_def loc_a_def loc_b_def)
  moreover have "appReducer ?s (DELETE_LOCATION ''c'') = ?s"
    using C8_delete_location [of ?s "''c''"] absent by blast
  ultimately show ?thesis using absent by blast
qed

text \<open>
  C9, as the reducer has it. Uniqueness of the ids is kept by every sequence of intents
  that meet their preconditions: from a state with unique ids, and so from the default
  state, such a sequence ends in a state with unique ids.
\<close>

theorem C9_ids_unique_preserved:
  "ids_unique s \<Longrightarrow> preconditions s as \<Longrightarrow> ids_unique (run s as)"
proof (induction as arbitrary: s)
  case Nil
  then show ?case by simp
next
  case (Cons a as)
  from Cons.prems have "ids_unique (appReducer s a)" "preconditions (appReducer s a) as"
    by (simp_all add: precondition_preserves)
  then show ?case using Cons.IH by simp
qed

theorem C9_witness:
  "ids_unique initialAppState
   \<and> preconditions initialAppState
       [ADD_LOCATION loc_a, ADD_LOCATION loc_b, EDIT_LOCATION loc_a_edited, DELETE_LOCATION ''b'']
   \<and> ids_unique (run initialAppState
       [ADD_LOCATION loc_a, ADD_LOCATION loc_b, EDIT_LOCATION loc_a_edited, DELETE_LOCATION ''b''])"
proof -
  have h1: "ids_unique initialAppState"
    by (simp add: ids_unique_def ids_def initialAppState_def)
  have h2: "preconditions initialAppState
       [ADD_LOCATION loc_a, ADD_LOCATION loc_b, EDIT_LOCATION loc_a_edited, DELETE_LOCATION ''b'']"
    by (simp add: ids_def initialAppState_def loc_a_def loc_b_def)
  from C9_ids_unique_preserved [OF h1 h2] h1 h2 show ?thesis by blast
qed

text \<open>
  The claim as the specification words it, for every transition, fails: the reducer
  appends whatever location it is given, so the same location added twice to the default
  state leaves two entries with one id; and it adopts whatever state SET_STATE carries.
\<close>

theorem C9_counterexample:
  "ids_unique initialAppState
   \<and> \<not> ids_unique (appReducer (appReducer initialAppState (ADD_LOCATION loc_a))
          (ADD_LOCATION loc_a))
   \<and> \<not> ids_unique (appReducer initialAppState (SET_STATE state_twice))"
  by (simp add: ids_unique_def ids_def initialAppState_def state_twice_def)

section \<open>Properties of the effects\<close>

lemma parse_blob_corrupt: "JSON_parse blob_corrupt = None"
  by code_simp

lemma parse_blob_partial: "JSON_parse blob_partial = Some (JObject [(''locations'', JArray [])])"
  by code_simp


lemma getItem_storage_with [simp]: "getItem (storage_with blob) STORAGE_KEY = Inr blob"
  by (cases blob) (simp_all add: getItem_def storage_with_def)

lemma load_effect_storage_with:
  "load_effect (storage_with (Some blob)) = (if blob = [] then None else JSON_parse blob)"
  by (simp add: load_effect_def load_try_def split: option.splits)



text \<open>
  C4. At startup, when the storage holds nothing under the application's key, or holds a
  blob that does not parse, the state in memory is the default state, and the
  application is running: every error is caught inside the effects. The storage is the
  one that the save effect leaves for the default state.
\<close>

theorem C4_startup_defaults:
  assumes "map_of (items st) STORAGE_KEY = None
         \<or> (\<exists>blob. map_of (items st) STORAGE_KEY = Some blob \<and> JSON_parse blob = None)"
  shows "startup st = Running (js_of_AppState initialAppState)
                        (save_effect (js_of_AppState initialAppState) st)"
proof -
  have "load_effect st = None"
    using assms
    by (auto simp: load_effect_def load_try_def getItem_def split: sum.splits option.splits)
  then show ?thesis by (simp add: startup_def Let_def)
qed

theorem C4_witness:
  "map_of (items (storage_with None)) STORAGE_KEY = None
   \<and> state_of (startup (storage_with None)) = js_of_AppState initialAppState
   \<and> startup (storage_with None)
       = Running (js_of_AppState initialAppState)
           (save_effect (js_of_AppState initialAppState) (storage_with None))
   \<and> map_of (items (storage_with (Some blob_corrupt))) STORAGE_KEY = Some blob_corrupt
   \<and> JSON_parse blob_corrupt = None
   \<and> state_of (startup (storage_with (Some blob_corrupt))) = js_of_AppState initialAppState
   \<and> startup (storage_with (Some blob_corrupt))
       = Running (js_of_AppState initialAppState)
           (save_effect (js_of_AppState initialAppState) (storage_with (Some blob_corrupt)))"
proof -
  have h1: "map_of (items (storage_with None)) STORAGE_KEY = None"
    by (simp add: storage_with_def)
  have h2: "map_of (items (storage_with (Some blob_corrupt))) STORAGE_KEY = Some blob_corrupt"
    by (simp add: storage_with_def)
  have a: "startup (storage_with None)
       = Running (js_of_AppState initialAppState)
           (save_effect (js_of_AppState initialAppState) (storage_with None))"
    using C4_startup_defaults [of "storage_with None"] h1 by blast
  have b: "startup (storage_with (Some blob_corrupt))
       = Running (js_of_AppState initialAppState)
           (save_effect (js_of_AppState initialAppState) (storage_with (Some blob_corrupt)))"
    using C4_startup_defaults [of "storage_with (Some blob_corrupt)"] h2 parse_blob_corrupt
    by blast
  from a b h1 h2 parse_blob_corrupt show ?thesis by simp
qed

lemma parse_blob_null: "JSON_parse blob_null = Some JNull"
  by code_simp

lemma startup_unshaped:
  assumes "JSON_parse blob = Some v" and "blob \<noteq> []" and "\<not> shaped_AppState v"
  shows "startup (storage_with (Some blob))
       = Unshaped v (save_effect (js_of_AppState initialAppState) (storage_with (Some blob)))"
  using assms by (simp add: startup_def Let_def load_effect_storage_with SET_STATE_any_def)

text \<open>
  C5. The code does not do what the claim says. A stored blob that holds the locations
  only parses; the load effect dispatches the parsed object as it is and the reducer
  returns it, so the state has no announcements and no contact information, where the
  default state has both: no default is put in their place. The contact page then reads
  a field of the absent contact information, which raises \<open>TypeError\<close>. With the stored
  blob \<open>null\<close> the state is \<open>null\<close>, and a read of any of its fields raises.
\<close>

theorem C5_absent_fields_not_defaulted:
  "JSON_parse blob_partial = Some (JObject [(''locations'', JArray [])])
   \<and> startup (storage_with (Some blob_partial))
       = Unshaped (JObject [(''locations'', JArray [])])
           (save_effect (js_of_AppState initialAppState) (storage_with (Some blob_partial)))
   \<and> get_prop (Some (state_of (startup (storage_with (Some blob_partial))))) P_announcements
       = Inr None
   \<and> get_prop (Some (state_of (startup (storage_with (Some blob_partial))))) P_contactInfo
       = Inr None
   \<and> ContactPage_reads (state_of (startup (storage_with (Some blob_partial)))) = Inl TypeError
   \<and> get_prop (Some (js_of_AppState initialAppState)) P_announcements
       = Inr (Some (JString ''No announcements have been posted yet.''))
   \<and> get_prop (Some (js_of_AppState initialAppState)) P_contactInfo
       = Inr (Some (js_of_ContactInfo (contactInfo initialAppState)))
   \<and> state_of (startup (storage_with (Some blob_null))) = JNull
   \<and> get_prop (Some (state_of (startup (storage_with (Some blob_null))))) P_locations
       = Inl TypeError"
proof -
  have p: "startup (storage_with (Some blob_partial))
       = Unshaped (JObject [(''locations'', JArray [])])
           (save_effect (js_of_AppState initialAppState) (storage_with (Some blob_partial)))"
    using parse_blob_partial
    by (rule startup_unshaped) (simp_all add: blob_partial_def shaped_AppState_def)
  have n: "startup (storage_with (Some blob_null))
       = Unshaped JNull
           (save_effect (js_of_AppState initialAppState) (storage_with (Some blob_null)))"
    using parse_blob_null
    by (rule startup_unshaped) (simp_all add: blob_null_def shaped_AppState_def)
  show ?thesis
    unfolding p n
    by (simp add: parse_blob_partial ContactPage_reads_def js_of_AppState_def
          initialAppState_def)
qed

text \<open>
  C10. For every state, a storage event on the application's key whose new value is
  absent or empty makes the listener dispatch nothing, and the state in memory stays the
  one it was.
\<close>

theorem C10_empty_new_value:
  assumes "key ev = Some STORAGE_KEY" and "newValue ev = None \<or> newValue ev = Some []"
  shows "handleStorageChange ev = None \<and> after_storage_event ev s = s"
  using assms by (auto simp: after_storage_event_def handleStorageChange_def)

theorem C10_witness:
  "key (event_for None) = Some STORAGE_KEY \<and> newValue (event_for None) = None
   \<and> handleStorageChange (event_for None) = None
   \<and> after_storage_event (event_for None) (js_of_AppState state_drive)
       = js_of_AppState state_drive
   \<and> newValue (event_for (Some [])) = Some []
   \<and> after_storage_event (event_for (Some [])) (js_of_AppState state_drive)
       = js_of_AppState state_drive"
proof -
  have k: "\<And>v. key (event_for v) = Some STORAGE_KEY" "\<And>v. newValue (event_for v) = v"
    by (simp_all add: event_for_def)
  from C10_empty_new_value [OF k(1), of None "js_of_AppState state_drive"] k(2)
  have a: "handleStorageChange (event_for None) = None
     \<and> after_storage_event (event_for None) (js_of_AppState state_drive)
        = js_of_AppState state_drive" by blast
  from C10_empty_new_value [OF k(1), of "Some []" "js_of_AppState state_drive"] k(2)
  have b: "after_storage_event (event_for (Some [])) (js_of_AppState state_drive)
        = js_of_AppState state_drive" by blast
  from a b k show ?thesis by blast
qed

subsection \<open>Persisting after a local transition\<close>











section \<open>\<open>JSON.parse\<close> after \<open>JSON.stringify\<close>\<close>

subsection \<open>Digits\<close>

lemma of_char_digit_char: "d < 10 \<Longrightarrow> (of_char (digit_char d) :: nat) = 48 + d"
  by (simp add: digit_char_def)

lemma is_digit_digit_char: "d < 10 \<Longrightarrow> is_digit (digit_char d)"
  by (simp add: is_digit_def of_char_digit_char)

lemma digit_val_digit_char: "d < 10 \<Longrightarrow> digit_val (digit_char d) = d"
  by (simp add: digit_val_def of_char_digit_char)

lemma digit_char_zero: "d < 10 \<Longrightarrow> (digit_char d = CHR ''0'') = (d = 0)"
proof
  assume "d < 10" "digit_char d = CHR ''0''"
  then have "(of_char (digit_char d) :: nat) = of_char (CHR ''0'')" by simp
  with \<open>d < 10\<close> show "d = 0" by (simp add: of_char_digit_char)
next
  have "char_of (of_char (CHR ''0'') :: nat) = CHR ''0''" by (rule char_of_char)
  moreover assume "d = 0"
  ultimately show "digit_char d = CHR ''0''" by (simp add: digit_char_def)
qed

lemma is_digit_zero: "is_digit (CHR ''0'')"
  by (simp add: is_digit_def)

lemma digit_val_zero: "digit_val (CHR ''0'') = 0"
  by (simp add: digit_val_def)

lemma digits_of_nat_digits: "c \<in> set (digits_of_nat n) \<Longrightarrow> is_digit c"
proof (induction n arbitrary: c rule: digits_of_nat.induct)
  case (1 n)
  show ?case
  proof (cases "n < 10")
    case True
    with "1.prems" show ?thesis
      by (simp add: digits_of_nat.simps [of n] is_digit_digit_char)
  next
    case False
    with "1.prems" "1.IH" show ?thesis
      by (auto simp: digits_of_nat.simps [of n] is_digit_digit_char)
  qed
qed

lemma digits_of_nat_nonempty: "digits_of_nat n \<noteq> []"
  by (subst digits_of_nat.simps) simp

lemma nat_of_digits_snoc: "nat_of_digits (ds @ [c]) = 10 * nat_of_digits ds + digit_val c"
  by (simp add: nat_of_digits_def)

lemma nat_of_digits_of_nat: "nat_of_digits (digits_of_nat n) = n"
proof (induction n rule: digits_of_nat.induct)
  case (1 n)
  show ?case
  proof (cases "n < 10")
    case True
    then show ?thesis
      by (simp add: digits_of_nat.simps [of n] nat_of_digits_def digit_val_digit_char)
  next
    case False
    with "1.IH" show ?thesis
      by (simp add: digits_of_nat.simps [of n] nat_of_digits_snoc digit_val_digit_char)
  qed
qed

lemma hd_digits_of_nat: "0 < n \<Longrightarrow> hd (digits_of_nat n) \<noteq> CHR ''0''"
proof (induction n rule: digits_of_nat.induct)
  case (1 n)
  show ?case
  proof (cases "n < 10")
    case True
    with "1.prems" show ?thesis
      by (simp add: digits_of_nat.simps [of n] digit_char_zero)
  next
    case False
    then have "0 < n div 10" by simp
    with False "1.IH" show ?thesis
      by (simp add: digits_of_nat.simps [of n] digits_of_nat_nonempty)
  qed
qed

lemma last_digits_of_nat: "\<not> 10 dvd n \<Longrightarrow> last (digits_of_nat n) \<noteq> CHR ''0''"
  by (subst digits_of_nat.simps) (auto simp: digit_char_zero dvd_eq_mod_eq_0)

lemma trailing_zeros_append:
  "ds \<noteq> [] \<Longrightarrow> last ds \<noteq> CHR ''0'' \<Longrightarrow> trailing_zeros (ds @ replicate z (CHR ''0'')) = z"
  by (cases ds rule: rev_cases) (simp_all add: trailing_zeros_def takeWhile_append)

lemma significant_append:
  "ds \<noteq> [] \<Longrightarrow> last ds \<noteq> CHR ''0'' \<Longrightarrow> significant (ds @ replicate z (CHR ''0'')) = ds"
  by (simp add: significant_def trailing_zeros_append)

lemma nat_of_digits_leading:
  "nat_of_digits (replicate z (CHR ''0'') @ ds) = nat_of_digits ds"
  by (induction z) (simp_all add: nat_of_digits_def digit_val_zero)

subsection \<open>Numbers\<close>

lemma takeWhile_nondigit: "r = [] \<or> \<not> is_digit (hd r) \<Longrightarrow> takeWhile is_digit r = []"
  by (cases r) auto

lemma dropWhile_nondigit: "r = [] \<or> \<not> is_digit (hd r) \<Longrightarrow> dropWhile is_digit r = r"
  by (cases r) auto

lemma parse_fraction_none:
  "r = [] \<or> hd r \<noteq> CHR ''.'' \<Longrightarrow> parse_fraction r = Some ([], r)"
  by (cases r) (auto simp: parse_fraction_def)

lemma parse_fraction_some:
  "fp \<noteq> [] \<Longrightarrow> \<forall>c\<in>set fp. is_digit c \<Longrightarrow> r = [] \<or> \<not> is_digit (hd r) \<Longrightarrow>
     parse_fraction (CHR ''.'' # fp @ r) = Some (fp, r)"
  by (simp add: parse_fraction_def takeWhile_nondigit dropWhile_nondigit)

lemma parse_exponent_none:
  "r = [] \<or> (hd r \<noteq> CHR ''e'' \<and> hd r \<noteq> CHR ''E'') \<Longrightarrow> parse_exponent r = Some (0, r)"
  by (cases r) (auto simp: parse_exponent_def)

lemma parse_exponent_some:
  assumes "r = [] \<or> \<not> is_digit (hd r)"
  shows "parse_exponent (CHR ''e'' # (if neg then CHR ''-'' else CHR ''+'') # digits_of_nat x @ r)
       = Some ((if neg then - 1 else 1) * int x, r)"
  using assms digits_of_nat_nonempty [of x]
  by (simp add: parse_exponent_def Let_def takeWhile_nondigit dropWhile_nondigit
        digits_of_nat_digits nat_of_digits_of_nat)

lemma parse_number_unsigned:
  assumes "ip \<noteq> []" and "\<forall>c\<in>set ip. is_digit c" and "1 < length ip \<longrightarrow> hd ip \<noteq> CHR ''0''"
    and "tail = [] \<or> \<not> is_digit (hd tail)"
    and "parse_fraction tail = Some (fp, r2)" and "parse_exponent r2 = Some (ex, r3)"
  shows "parse_number (ip @ tail) = Some (make_num False (ip @ fp) (ex - int (length fp)), r3)"
proof -
  obtain c cs where ip: "ip = c # cs" using assms(1) by (cases ip) auto
  with assms(2) have "is_digit c" by simp
  then have c: "c \<noteq> CHR ''-''" by (auto simp: is_digit_def)
  have tw: "takeWhile is_digit (ip @ tail) = ip" "dropWhile is_digit (ip @ tail) = tail"
    using assms(2,4) by (simp_all add: takeWhile_nondigit dropWhile_nondigit)
  have neg: "(case ip @ tail of [] \<Rightarrow> False | s # _ \<Rightarrow> s = CHR ''-'') = False"
    using c by (simp add: ip)
  have ok: "\<not> (ip = [] \<or> (1 < length ip \<and> hd ip = CHR ''0''))"
    using assms(1,3) by blast
  show ?thesis
    unfolding parse_number_def Let_def neg
    by (simp only: if_False tw ok assms(5,6) option.case prod.case)
qed

lemma parse_number_signed:
  assumes "ip \<noteq> []" and "\<forall>c\<in>set ip. is_digit c" and "1 < length ip \<longrightarrow> hd ip \<noteq> CHR ''0''"
    and "tail = [] \<or> \<not> is_digit (hd tail)"
    and "parse_fraction tail = Some (fp, r2)" and "parse_exponent r2 = Some (ex, r3)"
  shows "parse_number (CHR ''-'' # ip @ tail)
       = Some (make_num True (ip @ fp) (ex - int (length fp)), r3)"
proof -
  have tw: "takeWhile is_digit (ip @ tail) = ip" "dropWhile is_digit (ip @ tail) = tail"
    using assms(2,4) by (simp_all add: takeWhile_nondigit dropWhile_nondigit)
  show ?thesis
    unfolding parse_number_def using tw assms(1,3,5,6) by (simp add: Let_def)
qed

lemma make_num_digits:
  assumes "0 < n"  and "\<not> 10 dvd n"
  shows "make_num neg (replicate p (CHR ''0'') @ digits_of_nat n @ replicate z (CHR ''0'')) x
       = Num ((if neg then - 1 else 1) * int n) (x + int z)"
proof -
  let ?ds = "digits_of_nat n"
  let ?pre = "replicate p (CHR ''0'') @ ?ds"
  have ne: "?pre \<noteq> []" and la: "last ?pre \<noteq> CHR ''0''"
    using assms by (simp_all add: digits_of_nat_nonempty last_digits_of_nat)
  have "significant (?pre @ replicate z (CHR ''0'')) = ?pre"
    using ne la by (rule significant_append)
  moreover have "trailing_zeros (?pre @ replicate z (CHR ''0'')) = z"
    using ne la by (rule trailing_zeros_append)
  moreover have "nat_of_digits ?pre = n"
    by (simp add: nat_of_digits_leading nat_of_digits_of_nat)
  ultimately show ?thesis
    using assms(1) by (simp add: make_num_def)
qed

lemma parse_number_either:
  assumes "ip \<noteq> []" and "\<forall>c\<in>set ip. is_digit c" and "1 < length ip \<longrightarrow> hd ip \<noteq> CHR ''0''"
    and "tail = [] \<or> \<not> is_digit (hd tail)"
    and "parse_fraction tail = Some (fp, r2)" and "parse_exponent r2 = Some (ex, r3)"
  shows "parse_number ((if neg then ''-'' else []) @ ip @ tail)
       = Some (make_num neg (ip @ fp) (ex - int (length fp)), r3)"
  using parse_number_unsigned [OF assms] parse_number_signed [OF assms] by simp

lemma delimited_facts:
  assumes "delimited r"
  shows "r = [] \<or> \<not> is_digit (hd r)" and "r = [] \<or> hd r \<noteq> CHR ''.''"
    and "r = [] \<or> (hd r \<noteq> CHR ''e'' \<and> hd r \<noteq> CHR ''E'')"
  using assms by (auto simp: delimited_def is_digit_def)

lemma not_digit_chars: "\<not> is_digit (CHR ''.'')" "\<not> is_digit (CHR ''e'')"
  by (simp_all add: is_digit_def)

lemma parse_show_digits:
  assumes n: "0 < n" "\<not> 10 dvd n" and r: "delimited rest"
  shows "parse_number ((if neg then ''-'' else []) @
            show_digits (digits_of_nat n) (int (length (digits_of_nat n)) + e) @ rest)
       = Some (Num ((if neg then - 1 else 1) * int n) e, rest)"
proof -
  define ds where "ds = digits_of_nat n"
  define k where "k = int (length ds)"
  define nn where "nn = k + e"
  have ne: "ds \<noteq> []" and dg: "\<forall>c\<in>set ds. is_digit c" and h: "hd ds \<noteq> CHR ''0''"
    using n by (auto simp: ds_def digits_of_nat_nonempty digits_of_nat_digits hd_digits_of_nat)
  have mk: "\<And>p z x. make_num neg (replicate p (CHR ''0'') @ ds @ replicate z (CHR ''0'')) x
       = Num ((if neg then - 1 else 1) * int n) (x + int z)"
    unfolding ds_def using n by (rule make_num_digits)
  have kpos: "0 < int (length ds)" using ne by simp
  note rf = delimited_facts [OF r]
  have pf: "parse_fraction rest = Some ([], rest)" using rf(2) by (rule parse_fraction_none)
  have pe: "parse_exponent rest = Some (0, rest)" using rf(3) by (rule parse_exponent_none)
  consider (a) "k \<le> nn" "nn \<le> 21"
    | (b) "\<not> k \<le> nn" "0 < nn" "nn \<le> 21"
    | (c) "- 6 < nn" "nn \<le> 0"
    | (d) "nn \<le> - 6 \<or> 21 < nn" "k = 1"
    | (e) "nn \<le> - 6 \<or> 21 < nn" "k \<noteq> 1"
    by atomize_elim arith
  then have "parse_number ((if neg then ''-'' else []) @ show_digits ds nn @ rest)
       = Some (Num ((if neg then - 1 else 1) * int n) e, rest)"
  proof cases
    case a
    let ?ip = "ds @ replicate (nat (nn - k)) (CHR ''0'')"
    have sd: "show_digits ds nn = ?ip"
      using a by (simp add: show_digits_def k_def Let_def)
    have "parse_number ((if neg then ''-'' else []) @ ?ip @ rest)
        = Some (make_num neg (?ip @ []) (0 - int (length ([]::string))), rest)"
      using ne dg h rf(1) pf pe
      by (intro parse_number_either) (auto simp: is_digit_zero)
    moreover have "make_num neg (?ip @ []) (0 - int (length ([]::string)))
        = Num ((if neg then - 1 else 1) * int n) e"
      using mk [of 0 "nat (nn - k)" 0] a by (simp add: nn_def)
    ultimately show ?thesis by (simp add: sd)
  next
    case b
    let ?ip = "take (nat nn) ds" and ?fp = "drop (nat nn) ds"
    have lt: "nat nn < length ds" using b by (simp add: k_def)
    have sd: "show_digits ds nn @ rest = ?ip @ (CHR ''.'' # ?fp @ rest)"
      using b by (simp add: show_digits_def k_def Let_def)
    have ipne: "?ip \<noteq> []" using b ne by simp
    have ipd: "\<forall>c\<in>set ?ip. is_digit c" using dg by (meson in_set_takeD)
    have fpd: "\<forall>c\<in>set ?fp. is_digit c" using dg by (meson in_set_dropD)
    have iph: "hd ?ip \<noteq> CHR ''0''" using h b by simp
    have "parse_fraction (CHR ''.'' # ?fp @ rest) = Some (?fp, rest)"
      using lt fpd rf(1) by (intro parse_fraction_some) auto
    then have "parse_number ((if neg then ''-'' else []) @ ?ip @ (CHR ''.'' # ?fp @ rest))
        = Some (make_num neg (?ip @ ?fp) (0 - int (length ?fp)), rest)"
      using ipne ipd iph pe
      by (intro parse_number_either) (auto simp: not_digit_chars)
    moreover have "make_num neg (?ip @ ?fp) (0 - int (length ?fp))
        = Num ((if neg then - 1 else 1) * int n) e"
      using mk [of 0 0 "0 - int (length ?fp)"] b lt by (simp add: nn_def k_def)
    ultimately show ?thesis by (simp only: sd)
  next
    case c
    let ?fp = "replicate (nat (- nn)) (CHR ''0'') @ ds"
    have nk: "\<not> int (length ds) \<le> nn" using c(2) ne by (cases ds) auto
    have sd: "show_digits ds nn @ rest = ''0'' @ (CHR ''.'' # ?fp @ rest)"
      using c nk by (simp add: show_digits_def Let_def)
    have fpd: "\<forall>c\<in>set ?fp. is_digit c" using dg by (auto simp: is_digit_zero)
    have "parse_fraction (CHR ''.'' # ?fp @ rest) = Some (?fp, rest)"
      using ne fpd rf(1) by (intro parse_fraction_some) auto
    then have "parse_number ((if neg then ''-'' else []) @ ''0'' @ (CHR ''.'' # ?fp @ rest))
        = Some (make_num neg (''0'' @ ?fp) (0 - int (length ?fp)), rest)"
      using pe by (intro parse_number_either) (auto simp: not_digit_chars is_digit_zero)
    moreover have "make_num neg (''0'' @ ?fp) (0 - int (length ?fp))
        = Num ((if neg then - 1 else 1) * int n) e"
      using mk [of "Suc (nat (- nn))" 0 "0 - int (length ?fp)"] c
      by (simp add: nn_def k_def)
    ultimately show ?thesis by (simp only: sd)
  next
    case d
    let ?x = "nat \<bar>nn - 1\<bar>" and ?sg = "nn - 1 < 0"
    let ?tail = "CHR ''e'' # (if ?sg then CHR ''-'' else CHR ''+'') # digits_of_nat ?x @ rest"
    have sd: "show_digits ds nn @ rest = ds @ ?tail"
      using d by (auto simp: show_digits_def k_def Let_def)
    have "parse_exponent ?tail = Some ((if ?sg then - 1 else 1) * int ?x, rest)"
      using rf(1) by (rule parse_exponent_some)
    moreover have "parse_fraction ?tail = Some ([], ?tail)"
      by (rule parse_fraction_none) simp
    ultimately have "parse_number ((if neg then ''-'' else []) @ ds @ ?tail)
        = Some (make_num neg (ds @ []) ((if ?sg then - 1 else 1) * int ?x
             - int (length ([]::string))), rest)"
      using ne dg d(2)
      by (intro parse_number_either) (auto simp: not_digit_chars k_def)
    moreover have "make_num neg (ds @ []) ((if ?sg then - 1 else 1) * int ?x
             - int (length ([]::string))) = Num ((if neg then - 1 else 1) * int n) e"
      using mk [of 0 0 "nn - 1"] d by (auto simp: nn_def)
    ultimately show ?thesis by (simp only: sd)
  next
    case e
    let ?x = "nat \<bar>nn - 1\<bar>" and ?sg = "nn - 1 < 0"
    let ?r2 = "CHR ''e'' # (if ?sg then CHR ''-'' else CHR ''+'') # digits_of_nat ?x @ rest"
    have tl: "tl ds \<noteq> []" using e(2) ne by (cases ds) (auto simp: k_def)
    have sd: "show_digits ds nn @ rest = [hd ds] @ (CHR ''.'' # tl ds @ ?r2)"
      using e by (auto simp: show_digits_def k_def Let_def)
    have tld: "\<forall>c\<in>set (tl ds). is_digit c" using dg ne by (meson list.set_sel(2))
    have "parse_exponent ?r2 = Some ((if ?sg then - 1 else 1) * int ?x, rest)"
      using rf(1) by (rule parse_exponent_some)
    moreover have "parse_fraction (CHR ''.'' # tl ds @ ?r2) = Some (tl ds, ?r2)"
      using tl tld by (intro parse_fraction_some) (auto simp: not_digit_chars)
    ultimately have "parse_number ((if neg then ''-'' else []) @ [hd ds] @ (CHR ''.'' # tl ds @ ?r2))
        = Some (make_num neg ([hd ds] @ tl ds) ((if ?sg then - 1 else 1) * int ?x
             - int (length (tl ds))), rest)"
      using ne dg
      by (intro parse_number_either) (auto simp: not_digit_chars)
    moreover have "make_num neg ([hd ds] @ tl ds) ((if ?sg then - 1 else 1) * int ?x
             - int (length (tl ds))) = Num ((if neg then - 1 else 1) * int n) e"
    proof -
      have tll: "int (length (tl ds)) = k - 1" using ne by (cases ds) (auto simp: k_def)
      have "(if ?sg then - 1 else 1) * int ?x - int (length (tl ds)) = e"
        unfolding tll by (auto simp: nn_def)
      moreover have "[hd ds] @ tl ds = ds" using ne by simp
      ultimately show ?thesis using mk [of 0 0 e] by simp
    qed
    ultimately show ?thesis by (simp only: sd)
  qed
  then show ?thesis by (simp add: nn_def k_def ds_def)
qed

lemma parse_show_num:
  assumes "wf_num x" and "delimited rest"
  shows "parse_number (show_num x @ rest) = Some (x, rest)"
proof (cases x)
  case (Num m e)
  show ?thesis
  proof (cases "m = 0")
    case True
    with assms Num have e: "e = 0" by simp
    note rf = delimited_facts [OF assms(2)]
    have pf: "parse_fraction rest = Some ([], rest)" using rf(2) by (rule parse_fraction_none)
    have pe: "parse_exponent rest = Some (0, rest)" using rf(3) by (rule parse_exponent_none)
    have "parse_number (''0'' @ rest)
        = Some (make_num False (''0'' @ []) (0 - int (length ([]::string))), rest)"
      using rf(1) pf pe by (intro parse_number_unsigned) (auto simp: is_digit_zero)
    moreover have "make_num False ''0'' 0 = Num 0 0"
      by (simp add: make_num_def significant_def trailing_zeros_def nat_of_digits_def)
    ultimately show ?thesis using True e Num by simp
  next
    case False
    let ?n = "nat \<bar>m\<bar>"
    have n: "0 < ?n" "\<not> 10 dvd ?n" using False assms Num by (simp_all add: )
    have sig: "significant (digits_of_nat ?n) = digits_of_nat ?n"
      using significant_append [of "digits_of_nat ?n" 0] n
      by (simp add: digits_of_nat_nonempty last_digits_of_nat)
    have "show_num x @ rest = (if m < 0 then ''-'' else []) @
        show_digits (digits_of_nat ?n) (int (length (digits_of_nat ?n)) + e) @ rest"
      using False Num by (simp add: Let_def sig)
    moreover have "(if m < 0 then - 1 else 1) * int ?n = m" by simp
    ultimately show ?thesis
      using parse_show_digits [OF n assms(2), of "m < 0" e] Num by simp
  qed
qed (use assms in simp_all)

subsection \<open>Strings\<close>

lemma hex_val_hex_char: "d < 16 \<Longrightarrow> hex_val (hex_char d) = Some d"
  by (auto simp: hex_val_def hex_char_def Let_def)

lemma hex_val_zero: "hex_val (CHR ''0'') = Some 0"
  by (simp add: hex_val_def)

lemma hex4_control:
  assumes "n < 32"
  shows "hex4 (CHR ''0'') (CHR ''0'') (hex_char (n div 16)) (hex_char (n mod 16)) = Some n"
proof -
  have "n div 16 < 16" using assms by simp
  then show ?thesis
    by (simp add: hex4_def hex_val_zero hex_val_hex_char)
qed

lemma parse_chars_escape: "parse_chars (escape_char c @ cs) = cons_char c (parse_chars cs)"
proof -
  consider (q) "c = dquote" | (b) "c = bslash"
    | (s) "c \<in> {CHR 0x08, CHR 0x0C, CHR 0x0A, CHR 0x0D, CHR 0x09}"
    | (u) "c \<noteq> dquote" "c \<noteq> bslash"
          "c \<notin> {CHR 0x08, CHR 0x0C, CHR 0x0A, CHR 0x0D, CHR 0x09}" "(of_char c :: nat) < 32"
    | (p) "c \<noteq> dquote" "c \<noteq> bslash" "\<not> (of_char c :: nat) < 32"
    by blast
  then show ?thesis
  proof cases
    case q
    then show ?thesis by (simp add: escape_char_def unescape_def dquote_def bslash_def)
  next
    case b
    then show ?thesis by (simp add: escape_char_def unescape_def dquote_def bslash_def)
  next
    case s
    then show ?thesis by (auto simp: escape_char_def unescape_def dquote_def bslash_def)
  next
    case u
    have "char_of (of_char c :: nat) = c" by simp
    with u hex4_control [OF u(4)] show ?thesis
      by (simp add: escape_char_def bslash_def dquote_def)
  next
    case p
    then show ?thesis by (auto simp: escape_char_def)
  qed
qed

lemma parse_chars_quoted:
  "parse_chars (concat (map escape_char s) @ dquote # rest) = Some (s, rest)"
  by (induction s) (simp_all add: parse_chars_escape cons_char_def)

subsection \<open>Values\<close>

lemma skip_ws_starts: "starts_value cs \<Longrightarrow> skip_ws (cs @ r) = cs @ r"
  by (cases cs) (auto simp: starts_value_def skip_ws_def)

lemma skip_ws_char: "\<not> is_ws c \<Longrightarrow> skip_ws (c # r) = c # r"
  by (simp add: skip_ws_def)

lemma not_ws: "\<not> is_ws (CHR '','')" "\<not> is_ws (CHR '']'')" "\<not> is_ws (CHR ''}'')"
  "\<not> is_ws (CHR '':'')" "\<not> is_ws dquote"
  by (simp_all add: is_ws_def dquote_def)

lemma delimited_cons: "delimited (CHR '','' # r)" "delimited (CHR '']'' # r)"
  "delimited (CHR ''}'' # r)"
  by (simp_all add: delimited_def)

lemma is_digit_first:
  "is_digit c \<Longrightarrow> \<not> is_ws c \<and> c \<noteq> CHR '']'' \<and> c \<noteq> CHR ''}'' \<and> c \<noteq> CHR ''['' \<and> c \<noteq> CHR ''{''
     \<and> c \<noteq> dquote \<and> c \<noteq> CHR ''t'' \<and> c \<noteq> CHR ''f'' \<and> c \<noteq> CHR ''n''"
  by (auto simp: is_digit_def is_ws_def dquote_def)

lemma show_num_first:
  assumes "wf_num x"
  shows "\<exists>c cs. show_num x = c # cs \<and> (c = CHR ''-'' \<or> is_digit c)"
proof -
  from parse_show_num [OF assms, of "[]"]
  have p: "parse_number (show_num x) = Some (x, [])" by (simp add: delimited_def)
  show ?thesis
  proof (cases "show_num x")
    case Nil
    with p show ?thesis by (simp add: parse_number_def)
  next
    case (Cons c cs)
    show ?thesis
    proof (cases "c = CHR ''-''")
      case False
      with p Cons have "takeWhile is_digit (c # cs) \<noteq> []"
        by (auto simp: parse_number_def Let_def split: if_splits)
      then have "is_digit c" by (auto split: if_splits)
      with Cons show ?thesis by simp
    qed (use Cons in simp)
  qed
qed

lemma parse_value_number:
  assumes "wf_num x" and "delimited rest"
  shows "parse_value (Suc n) (show_num x @ rest) = Some (JNumber x, rest)"
proof -
  obtain c cs where s: "show_num x = c # cs" and c: "c = CHR ''-'' \<or> is_digit c"
    using show_num_first [OF assms(1)] by blast
  have "parse_number ((c # cs) @ rest) = Some (x, rest)"
    using parse_show_num [OF assms] s by simp
  moreover have "c \<noteq> CHR ''['' \<and> c \<noteq> CHR ''{'' \<and> c \<noteq> dquote \<and> c \<noteq> CHR ''t'' \<and> c \<noteq> CHR ''f''
      \<and> c \<noteq> CHR ''n''"
    using c is_digit_first [of c] by (auto simp: dquote_def)
  ultimately show ?thesis by (simp add: s)
qed

lemma starts_value_stringify: "wf_js v \<Longrightarrow> starts_value (JSON_stringify v)"
proof (cases v)
  case (JNumber x)
  assume "wf_js v"
  with JNumber obtain c cs where "show_num x = c # cs" "c = CHR ''-'' \<or> is_digit c"
    using show_num_first [of x] by auto
  with JNumber show ?thesis
    using is_digit_first [of c] by (auto simp: starts_value_def is_ws_def)
qed (auto simp: starts_value_def is_ws_def quote_def dquote_def)

lemma put_fresh: "k \<notin> fst ` set obj \<Longrightarrow> put obj (k, v) = obj @ [(k, v)]"
  by (induction obj) (auto simp: put_def)

lemma foldl_put_distinct:
  "distinct (map fst kvs) \<Longrightarrow> fst ` set obj \<inter> fst ` set kvs = {} \<Longrightarrow>
     foldl put obj kvs = obj @ kvs"
proof (induction kvs arbitrary: obj)
  case Nil
  then show ?case by simp
next
  case (Cons kv kvs)
  obtain k v where kv: "kv = (k, v)" by (cases kv)
  from Cons.prems have fresh: "k \<notin> fst ` set obj" by (auto simp: kv)
  have "foldl put (obj @ [(k, v)]) kvs = (obj @ [(k, v)]) @ kvs"
    using Cons.prems by (intro Cons.IH) (auto simp: kv)
  then show ?case by (simp add: kv put_fresh [OF fresh])
qed

lemma starts_value_append: "starts_value cs \<Longrightarrow> starts_value (cs @ r)"
  by (cases cs) (auto simp: starts_value_def)

lemma starts_value_elements:
  "vs \<noteq> [] \<Longrightarrow> list_all wf_js vs \<Longrightarrow> starts_value (stringify_elements vs)"
proof (cases vs)
  case (Cons v ws)
  assume "list_all wf_js vs"
  with Cons have "starts_value (JSON_stringify v)" by (simp add: starts_value_stringify)
  with Cons show ?thesis by (cases ws) (auto intro: starts_value_append)
qed simp

lemma starts_value_quote: "starts_value (quote k @ r)"
  by (simp add: starts_value_def quote_def is_ws_def dquote_def)

lemma starts_value_members: "kvs \<noteq> [] \<Longrightarrow> starts_value (stringify_members kvs)"
proof (cases kvs)
  case (Cons kv ws)
  obtain k v where "kv = (k, v)" by (cases kv)
  with Cons show ?thesis
    using starts_value_quote by (cases ws) auto
qed simp

lemma starts_valueE:
  assumes "starts_value cs"
  obtains d r where "skip_ws (cs @ rest) = d # r" and "cs @ rest = d # r"
    and "d \<noteq> CHR '']''" and "d \<noteq> CHR ''}''"
proof -
  from assms obtain d cs' where "cs = d # cs'" by (cases cs) (auto simp: starts_value_def)
  with assms skip_ws_starts [OF assms, of rest] that [of d "cs' @ rest"] show thesis
    by (auto simp: starts_value_def)
qed

lemma parse_value_array:
  assumes "vs \<noteq> [] \<longrightarrow> parse_elements n (stringify_elements vs @ CHR '']'' # rest) = Some (vs, rest)"
    and "list_all wf_js vs"
  shows "parse_value (Suc n) (JSON_stringify (JArray vs) @ rest) = Some (JArray vs, rest)"
proof (cases "vs = []")
  case True
  then show ?thesis by (simp add: skip_ws_char not_ws)
next
  case False
  from starts_value_elements [OF False assms(2)]
  obtain d r where "skip_ws (stringify_elements vs @ CHR '']'' # rest) = d # r"
    and "stringify_elements vs @ CHR '']'' # rest = d # r" and "d \<noteq> CHR '']''"
    by (rule starts_valueE)
  with assms(1) False show ?thesis by simp
qed

lemma parse_value_object:
  assumes "kvs \<noteq> [] \<longrightarrow> parse_members n (stringify_members kvs @ CHR ''}'' # rest) = Some (kvs, rest)"
    and "distinct (map fst kvs)"
  shows "parse_value (Suc n) (JSON_stringify (JObject kvs) @ rest) = Some (JObject kvs, rest)"
proof (cases "kvs = []")
  case True
  then show ?thesis by (simp add: skip_ws_char not_ws)
next
  case False
  from starts_value_members [OF False]
  obtain d r where "skip_ws (stringify_members kvs @ CHR ''}'' # rest) = d # r"
    and "stringify_members kvs @ CHR ''}'' # rest = d # r" and "d \<noteq> CHR ''}''"
    by (rule starts_valueE)
  moreover have "foldl put [] kvs = kvs"
    using foldl_put_distinct [OF assms(2), of "[]"] by simp
  ultimately show ?thesis using assms(1) False by simp
qed

lemma parse_value_string:
  "parse_value (Suc n) (JSON_stringify (JString s) @ rest) = Some (JString s, rest)"
  by (simp add: quote_def parse_chars_quoted) (simp add: dquote_def)

lemma parse_value_literal:
  "parse_value (Suc n) (JSON_stringify JNull @ rest) = Some (JNull, rest)"
  "parse_value (Suc n) (JSON_stringify (JBool b) @ rest) = Some (JBool b, rest)"
  by (simp_all add: literal_def dquote_def)

lemma parse_elements_step:
  assumes "parse_value n (JSON_stringify v @ CHR '','' # tl_text @ CHR '']'' # rest)
             = Some (v, CHR '','' # tl_text @ CHR '']'' # rest)"
    and "parse_elements n (tl_text @ CHR '']'' # rest) = Some (vs, rest)"
    and "starts_value tl_text"
  shows "parse_elements (Suc n) (JSON_stringify v @ CHR '','' # tl_text @ CHR '']'' # rest)
           = Some (v # vs, rest)"
  using assms skip_ws_starts [OF assms(3), of "CHR '']'' # rest"]
  by (simp add: skip_ws_char not_ws)

lemma parse_elements_last:
  assumes "parse_value n (JSON_stringify v @ CHR '']'' # rest) = Some (v, CHR '']'' # rest)"
  shows "parse_elements (Suc n) (JSON_stringify v @ CHR '']'' # rest) = Some ([v], rest)"
  using assms by (simp add: skip_ws_char not_ws)

lemma parse_members_step:
  assumes "parse_value n (JSON_stringify v @ CHR '','' # tl_text @ CHR ''}'' # rest)
             = Some (v, CHR '','' # tl_text @ CHR ''}'' # rest)"
    and "parse_members n (tl_text @ CHR ''}'' # rest) = Some (kvs, rest)"
    and "starts_value tl_text" and "starts_value (JSON_stringify v)"
  shows "parse_members (Suc n)
           (quote k @ CHR '':'' # JSON_stringify v @ CHR '','' # tl_text @ CHR ''}'' # rest)
           = Some ((k, v) # kvs, rest)"
  using assms(1,2) skip_ws_starts [OF assms(3), of "CHR ''}'' # rest"]
    skip_ws_starts [OF assms(4), of "CHR '','' # tl_text @ CHR ''}'' # rest"]
  by (simp add: quote_def parse_chars_quoted skip_ws_char not_ws)

lemma parse_members_last:
  assumes "parse_value n (JSON_stringify v @ CHR ''}'' # rest) = Some (v, CHR ''}'' # rest)"
    and "starts_value (JSON_stringify v)"
  shows "parse_members (Suc n) (quote k @ CHR '':'' # JSON_stringify v @ CHR ''}'' # rest)
           = Some ([(k, v)], rest)"
  using assms(1) skip_ws_starts [OF assms(2), of "CHR ''}'' # rest"]
  by (simp add: quote_def parse_chars_quoted skip_ws_char not_ws)

lemma parse_stringify:
  "wf_js v \<Longrightarrow> cost v \<le> n \<Longrightarrow> delimited rest \<Longrightarrow>
     parse_value n (JSON_stringify v @ rest) = Some (v, rest)"
  "list_all wf_js vs \<Longrightarrow> vs \<noteq> [] \<Longrightarrow> cost_elements vs \<le> n \<Longrightarrow>
     parse_elements n (stringify_elements vs @ CHR '']'' # rest) = Some (vs, rest)"
  "list_all (\<lambda>kv. wf_js (snd kv)) kvs \<Longrightarrow> kvs \<noteq> [] \<Longrightarrow> cost_members kvs \<le> n \<Longrightarrow>
     parse_members n (stringify_members kvs @ CHR ''}'' # rest) = Some (kvs, rest)"
proof (induction v and vs and kvs arbitrary: n rest and n rest and n rest
       rule: JSON_stringify_stringify_elements_stringify_members.induct)
  case 1
  then obtain n' where "n = Suc n'" by (cases n) auto
  then show ?case by (simp only: parse_value_literal)
next
  case (2 b)
  then obtain n' where "n = Suc n'" by (cases n) auto
  then show ?case by (simp only: parse_value_literal)
next
  case (3 x)
  then obtain n' where "n = Suc n'" by (cases n) auto
  with 3 show ?case by (simp add: parse_value_number del: parse_value.simps)
next
  case (4 s)
  then obtain n' where "n = Suc n'" by (cases n) auto
  then show ?case by (simp only: parse_value_string)
next
  case (5 vs)
  then obtain n' where n: "n = Suc n'" "cost_elements vs \<le> n'" by (cases n) auto
  from 5 have wf: "list_all wf_js vs" by simp
  have "vs \<noteq> [] \<longrightarrow> parse_elements n' (stringify_elements vs @ CHR '']'' # rest) = Some (vs, rest)"
    using "5.IH" wf n(2) by blast
  then show ?case unfolding n(1) using wf by (rule parse_value_array)
next
  case (6 kvs)
  then obtain n' where n: "n = Suc n'" "cost_members kvs \<le> n'" by (cases n) auto
  from 6 have wf: "list_all (\<lambda>kv. wf_js (snd kv)) kvs" and d: "distinct (map fst kvs)" by simp_all
  have "kvs \<noteq> [] \<longrightarrow> parse_members n' (stringify_members kvs @ CHR ''}'' # rest) = Some (kvs, rest)"
    using "6.IH" wf n(2) by blast
  then show ?case unfolding n(1) using d by (rule parse_value_object)
next
  case 7
  then show ?case by simp
next
  case (8 v)
  then obtain n' where n: "n = Suc n'" "cost v \<le> n'" by (cases n) auto
  from 8 have wf: "wf_js v" by simp
  have "parse_value n' (JSON_stringify v @ CHR '']'' # rest) = Some (v, CHR '']'' # rest)"
    using wf n(2) by (intro "8.IH") (simp_all add: delimited_cons)
  then show ?case unfolding n(1) by (simp only: stringify_elements.simps parse_elements_last)
next
  case (9 v w vs)
  then obtain n' where n: "n = Suc n'" "cost v \<le> n'" "cost_elements (w # vs) \<le> n'"
    by (cases n) auto
  from 9 have wf: "wf_js v" "list_all wf_js (w # vs)" by simp_all
  let ?tl = "stringify_elements (w # vs)"
  have "parse_value n' (JSON_stringify v @ CHR '','' # ?tl @ CHR '']'' # rest)
      = Some (v, CHR '','' # ?tl @ CHR '']'' # rest)"
    using wf(1) n(2) by (intro "9.IH"(1)) (simp_all add: delimited_cons)
  moreover have "parse_elements n' (?tl @ CHR '']'' # rest) = Some (w # vs, rest)"
    using wf(2) n(3) by (intro "9.IH"(2)) simp_all
  moreover have "starts_value ?tl"
    using wf(2) by (intro starts_value_elements) simp_all
  ultimately have "parse_elements (Suc n') (JSON_stringify v @ CHR '','' # ?tl @ CHR '']'' # rest)
      = Some (v # w # vs, rest)"
    by (rule parse_elements_step)
  then show ?case unfolding n(1) by simp
next
  case 10
  then show ?case by simp
next
  case (11 k v)
  then obtain n' where n: "n = Suc n'" "cost v \<le> n'" by (cases n) auto
  from 11 have wf: "wf_js v" by simp
  have "parse_value n' (JSON_stringify v @ CHR ''}'' # rest) = Some (v, CHR ''}'' # rest)"
    using wf n(2) by (intro "11.IH") (simp_all add: delimited_cons)
  then have "parse_members (Suc n') (quote k @ CHR '':'' # JSON_stringify v @ CHR ''}'' # rest)
      = Some ([(k, v)], rest)"
    using starts_value_stringify [OF wf] by (rule parse_members_last)
  then show ?case unfolding n(1) by simp
next
  case (12 k v kv kvs)
  then obtain n' where n: "n = Suc n'" "cost v \<le> n'" "cost_members (kv # kvs) \<le> n'"
    by (cases n) auto
  from 12 have wf: "wf_js v" "list_all (\<lambda>kv. wf_js (snd kv)) (kv # kvs)" by simp_all
  let ?tl = "stringify_members (kv # kvs)"
  have "parse_value n' (JSON_stringify v @ CHR '','' # ?tl @ CHR ''}'' # rest)
      = Some (v, CHR '','' # ?tl @ CHR ''}'' # rest)"
    using wf(1) n(2) by (intro "12.IH"(1)) (simp_all add: delimited_cons)
  moreover have "parse_members n' (?tl @ CHR ''}'' # rest) = Some (kv # kvs, rest)"
    using wf(2) n(3) by (intro "12.IH"(2)) simp_all
  moreover have "starts_value ?tl"
    by (intro starts_value_members) simp
  ultimately have "parse_members (Suc n')
        (quote k @ CHR '':'' # JSON_stringify v @ CHR '','' # ?tl @ CHR ''}'' # rest)
      = Some ((k, v) # kv # kvs, rest)"
    using starts_value_stringify [OF wf(1)] by (rule parse_members_step)
  then show ?case unfolding n(1) by simp
qed

lemma cost_le_length:
  "wf_js v \<Longrightarrow> cost v \<le> length (JSON_stringify v)"
  "list_all wf_js vs \<Longrightarrow> cost_elements vs \<le> Suc (length (stringify_elements vs))"
  "list_all (\<lambda>kv. wf_js (snd kv)) kvs \<Longrightarrow> cost_members kvs \<le> length (stringify_members kvs)"
proof (induction v and vs and kvs
       rule: JSON_stringify_stringify_elements_stringify_members.induct)
  case (3 x)
  then obtain c cs where "show_num x = c # cs" using show_num_first [of x] by auto
  then show ?case by simp
qed (auto simp: quote_def)

lemma JSON_roundtrip:
  assumes "wf_js v"
  shows "JSON_parse (JSON_stringify v) = Some v"
proof -
  let ?text = "JSON_stringify v"
  have "parse_value (Suc (length ?text)) (?text @ []) = Some (v, [])"
    using assms cost_le_length(1) [OF assms]
    by (intro parse_stringify(1)) (simp_all add: delimited_def)
  moreover have "skip_ws ?text = ?text"
    using skip_ws_starts [OF starts_value_stringify [OF assms], of "[]"] by simp
  ultimately show ?thesis by (simp add: JSON_parse_def skip_ws_def)
qed

subsection \<open>States\<close>

lemma wf_js_of_Location: "wf_Location l \<Longrightarrow> wf_js (js_of_Location l)"
  by (simp add: wf_Location_def js_of_Location_def)

lemma wf_js_of_AppState: "wf_AppState s \<Longrightarrow> wf_js (js_of_AppState s)"
  by (simp add: wf_AppState_def js_of_AppState_def js_of_ContactInfo_def list_all_iff
        wf_js_of_Location)

lemma js_of_Location_inj: "js_of_Location l = js_of_Location l' \<Longrightarrow> l = l'"
  by (cases l, cases l') (simp add: js_of_Location_def)

lemma js_of_AppState_inj: "js_of_AppState s = js_of_AppState s' \<Longrightarrow> s = s'"
proof -
  assume eq: "js_of_AppState s = js_of_AppState s'"
  have "inj js_of_Location" by (rule injI) (rule js_of_Location_inj)
  with eq have "locations s = locations s'"
    by (simp add: js_of_AppState_def)
  moreover from eq have "announcements s = announcements s'"
    by (simp add: js_of_AppState_def)
  moreover from eq have "contactInfo s = contactInfo s'"
    by (cases "contactInfo s", cases "contactInfo s'")
       (simp add: js_of_AppState_def js_of_ContactInfo_def)
  ultimately show ?thesis by (cases s, cases s') simp
qed

lemma stringify_nonempty: "wf_js v \<Longrightarrow> JSON_stringify v \<noteq> []"
  using starts_value_stringify [of v] by (auto simp: starts_value_def)

lemma shaped_js_of_Location: "wf_Location l \<Longrightarrow> shaped_Location (js_of_Location l)"
  by (cases "lat l"; cases "lng l")
     (simp_all add: wf_Location_def shaped_Location_def js_of_Location_def)

lemma shaped_js_of_AppState: "wf_AppState s \<Longrightarrow> shaped_AppState (js_of_AppState s)"
  by (simp add: wf_AppState_def shaped_AppState_def shaped_ContactInfo_def js_of_AppState_def
        js_of_ContactInfo_def list_all_iff shaped_js_of_Location)

lemma startup_after_save:
  assumes "wf_js v" and "shaped_AppState v"
    and "setItem st STORAGE_KEY (JSON_stringify v) = Inr st'"
  shows "startup st' = Running v (save_effect v (save_effect (js_of_AppState initialAppState) st'))"
proof -
  from assms(3) have "getItem st' STORAGE_KEY = Inr (Some (JSON_stringify v))"
    by (auto simp: setItem_def getItem_def update_conv' split: if_splits)
  then have "load_effect st' = Some v"
    using stringify_nonempty [OF assms(1)] JSON_roundtrip [OF assms(1)]
    by (simp add: load_effect_def load_try_def)
  then show ?thesis using assms(2) by (simp add: startup_def Let_def SET_STATE_any_def)
qed

lemma stringify_state_drive: "JSON_stringify (js_of_AppState state_drive) = blob_drive"
  by code_simp

text \<open>
  C1. For every state whose coordinates are well-formed numbers, parsing the
  serialization of the state gives the state back: the parsed value is the run-time value
  of the state, no other state has that value, so the sequence of locations with its
  order and every field, the announcements and the contact information are the ones
  serialized; and a page that starts on a storage to which the serialization was written
  is running with this state in memory.
\<close>

theorem C1_roundtrip:
  assumes "wf_AppState s"
  shows "JSON_parse (JSON_stringify (js_of_AppState s)) = Some (js_of_AppState s)
       \<and> (\<forall>s'. JSON_parse (JSON_stringify (js_of_AppState s)) = Some (js_of_AppState s')
              \<longrightarrow> s' = s)
       \<and> (\<forall>st st'. setItem st STORAGE_KEY (JSON_stringify (js_of_AppState s)) = Inr st'
              \<longrightarrow> startup st' = Running (js_of_AppState s)
                    (save_effect (js_of_AppState s)
                      (save_effect (js_of_AppState initialAppState) st')))"
proof -
  note wf = wf_js_of_AppState [OF assms]
  have rt: "JSON_parse (JSON_stringify (js_of_AppState s)) = Some (js_of_AppState s)"
    using wf by (rule JSON_roundtrip)
  moreover have "\<forall>s'. JSON_parse (JSON_stringify (js_of_AppState s)) = Some (js_of_AppState s')
      \<longrightarrow> s' = s"
    using rt js_of_AppState_inj by auto
  moreover have "\<forall>st st'. setItem st STORAGE_KEY (JSON_stringify (js_of_AppState s)) = Inr st'
      \<longrightarrow> startup st' = Running (js_of_AppState s)
            (save_effect (js_of_AppState s) (save_effect (js_of_AppState initialAppState) st'))"
    using startup_after_save [OF wf shaped_js_of_AppState [OF assms]] by blast
  ultimately show ?thesis by blast
qed

theorem C1_witness:
  "wf_AppState state_drive
   \<and> JSON_stringify (js_of_AppState state_drive) = blob_drive
   \<and> JSON_parse blob_drive = Some (js_of_AppState state_drive)
   \<and> setItem (storage_with None) STORAGE_KEY blob_drive = Inr (storage_with (Some blob_drive))
   \<and> state_of (startup (storage_with (Some blob_drive))) = js_of_AppState state_drive
   \<and> startup (storage_with (Some blob_drive))
       = Running (js_of_AppState state_drive)
           (save_effect (js_of_AppState state_drive)
             (save_effect (js_of_AppState initialAppState) (storage_with (Some blob_drive))))"
proof -
  have wf: "wf_AppState state_drive"
    by (simp add: wf_AppState_def wf_Location_def state_drive_def loc_a_def)
  have set: "setItem (storage_with None) STORAGE_KEY blob_drive
      = Inr (storage_with (Some blob_drive))"
    by (simp add: setItem_def storage_with_def usage_def STORAGE_KEY_def blob_drive_def)
  from C1_roundtrip [OF wf] stringify_state_drive wf set show ?thesis by simp
qed

end
